theory Spec2Isabelle
  imports Main "HOL-Library.Sublist"
begin

section \<open>The feed sync orchestrator of greenbone-feed-sync\<close>

text \<open>
  A shallow embedding of \<^verbatim>\<open>src/greenbone/feed/sync/main.py\<close>: the data classes
  \<^verbatim>\<open>Sync\<close> and \<^verbatim>\<open>SyncList\<close>, the pure function \<^verbatim>\<open>filter_syncs\<close>, the
  coroutine \<^verbatim>\<open>feed_sync\<close> and the entry point \<^verbatim>\<open>main\<close>.

  \<^verbatim>\<open>feed_sync\<close> is effectful. Its effects are modelled as a writer: every function of
  the model returns, next to its result, the list of events it emitted, oldest first. The
  collaborators that the module imports (the rsync wrapper, the lock helper, the argument
  parser, the operating system) are fields of an environment record. A collaborator that
  can fail is an oracle that receives the events of the run so far, so that its outcome may
  differ from one call to the next in any way.
\<close>

subsection \<open>Exceptions\<close>

text \<open>
  A Python exception object, as far as the module looks at it: the names of its class and
  of the base classes of that class (what \<^verbatim>\<open>except C\<close> tests), the text of
  \<^verbatim>\<open>str(e)\<close>, and the text that \<^verbatim>\<open>print\<close> writes for the attribute
  \<^verbatim>\<open>e.stderr\<close>. The class hierarchy of \<^verbatim>\<open>greenbone.feed.sync.errors\<close> is
  therefore not fixed by the model: it comes with the exception values.
\<close>

record exn =
  classes :: "string list"
  message :: string
  stderr :: string

definition isinstance :: "exn \<Rightarrow> string \<Rightarrow> bool" where
  "isinstance e c = (c \<in> set (classes e))"

definition GreenboneFeedSyncError :: "string \<Rightarrow> exn" where
  "GreenboneFeedSyncError msg =
     \<lparr>classes = [''GreenboneFeedSyncError'', ''Exception'', ''BaseException''],
      message = msg, stderr = ''''\<rparr>"

subsection \<open>Data classes\<close>

record Sync =
  name :: string
  types :: "string list"
  url :: string
  destination :: string

record SyncList =
  lock_file :: string
  syncs :: "Sync list"

text \<open>The list comprehension of \<^verbatim>\<open>filter_syncs\<close> is the list filter.\<close>

definition filter_syncs :: "string \<Rightarrow> string \<Rightarrow> Sync list \<Rightarrow> SyncList" where
  "filter_syncs lf feed_type candidates =
     \<lparr>lock_file = lf,
      syncs = [sync \<leftarrow> candidates. feed_type \<in> set (types sync)]\<rparr>"

subsection \<open>Events and collaborators\<close>

datatype event =
    CallFilterSyncs string string
  | LockEnter string bool "int option" "exn option"
  | LockExit string
  | PrintStdout string
  | PrintStderr string
  | Transfer string string "exn option"

text \<open>
  \<^item> \<open>CallFilterSyncs lf t\<close>: \<^verbatim>\<open>filter_syncs\<close> was called with lock file \<open>lf\<close> and
    feed type \<open>t\<close>;
  \<^item> \<open>LockEnter lf verbose wait r\<close>: the block \<^verbatim>\<open>async with flock_wait(lf,
    verbose=verbose, wait_interval=wait)\<close> was entered; \<open>r = None\<close> when the lock was
    acquired, \<open>Some e\<close> when the acquisition raised \<open>e\<close>;
  \<^item> \<open>LockExit lf\<close>: that block was left, which releases the lock;
  \<^item> \<open>PrintStdout s\<close>, \<open>PrintStderr s\<close>: \<^verbatim>\<open>print(s)\<close>, \<^verbatim>\<open>print(s, file=sys.stderr)\<close>;
  \<^item> \<open>Transfer u d r\<close>: \<^verbatim>\<open>await rsync.sync(url=u, destination=d)\<close> with its
    outcome, \<open>None\<close> for a normal return and \<open>Some e\<close> for the exception raised.
\<close>

record args =
  private_directory :: "string option"
  verbose :: int
  compression_level :: int
  openvas_lock_file :: string
  gvmd_lock_file :: string
  type :: string
  notus_url :: string
  notus_destination :: string
  nasl_url :: string
  nasl_destination :: string
  scap_data_url :: string
  scap_data_destination :: string
  cert_data_url :: string
  cert_data_destination :: string
  report_formats_url :: string
  report_formats_destination :: string
  scan_configs_url :: string
  scan_configs_destination :: string
  port_lists_url :: string
  port_lists_destination :: string
  no_wait :: bool
  wait_interval :: int
  fail_fast :: bool

record Rsync =
  private_subdir :: "string option"
  rsync_verbose :: bool
  rsync_compression_level :: int

record env =
  geteuid :: nat
  parse_arguments :: args
  rsync_sync :: "event list \<Rightarrow> Rsync \<Rightarrow> string \<Rightarrow> string \<Rightarrow> exn option"
  flock_acquire :: "event list \<Rightarrow> string \<Rightarrow> bool \<Rightarrow> int option \<Rightarrow> exn option"

definition is_root :: "env \<Rightarrow> bool" where
  "is_root env = (geteuid env = 0)"

subsection \<open>The orchestrator\<close>

text \<open>
  How a block of statements ends: it runs to its end with the local variable
  \<^verbatim>\<open>has_error\<close> at some value, it executes \<^verbatim>\<open>return v\<close>, or an exception leaves it.
\<close>

datatype flow = Next bool | Return int | Raise exn

text \<open>
  The statement \<^verbatim>\<open>if args.verbose >= 1: print(f"Downloading ...")\<close>: the events it
  emits for one sync.
\<close>

definition announce :: "args \<Rightarrow> Sync \<Rightarrow> event list" where
  "announce a sync =
     (if verbose a \<ge> 1
      then [PrintStdout (''Downloading '' @ name sync @ '' from '' @ url sync
                         @ '' to '' @ destination sync)]
      else [])"

text \<open>The loop \<^verbatim>\<open>for sync in sync_list.syncs\<close> with its \<^verbatim>\<open>try\<close> statement.\<close>

fun sync_loop ::
  "env \<Rightarrow> args \<Rightarrow> Rsync \<Rightarrow> Sync list \<Rightarrow> bool \<Rightarrow> event list \<Rightarrow> flow \<times> event list" where
  "sync_loop env a rsync [] has_error hist = (Next has_error, [])"
| "sync_loop env a rsync (sync # rest) has_error hist =
     (let out = announce a sync;
          r = rsync_sync env (hist @ out) rsync (url sync) (destination sync);
          evs = out @ [Transfer (url sync) (destination sync) r]
      in case r of
           None \<Rightarrow>
             (case sync_loop env a rsync rest has_error (hist @ evs) of
                (fl, later) \<Rightarrow> (fl, evs @ later))
         | Some e \<Rightarrow>
             if isinstance e ''RsyncError'' then
               (let evs' = evs @ [PrintStderr (stderr e)]
                in if fail_fast a then (Return 1, evs')
                   else (case sync_loop env a rsync rest True (hist @ evs') of
                           (fl, later) \<Rightarrow> (fl, evs' @ later)))
             else (Raise e, evs))"

text \<open>
  Modelled from the spec: the lock helper \<^verbatim>\<open>flock_wait\<close> of
  \<^verbatim>\<open>greenbone.feed.sync.helper\<close> is outside this module. By the spec's
  contract of the lock collaborator it is a scoped guard: entering the \<^verbatim>\<open>async with\<close>
  block acquires the lock or raises, and the lock is released when the block is left, on
  every path. The statement \<^verbatim>\<open>async with\<close> itself is Python's: the body runs only
  after a successful entry, and the exit handler runs however the body ends.
\<close>

definition flock_wait ::
  "env \<Rightarrow> string \<Rightarrow> bool \<Rightarrow> int option \<Rightarrow>
   (event list \<Rightarrow> flow \<times> event list) \<Rightarrow> event list \<Rightarrow> flow \<times> event list" where
  "flock_wait env lf vb wait body hist =
     (let r = flock_acquire env hist lf vb wait;
          enter = LockEnter lf vb wait r
      in case r of
           Some e \<Rightarrow> (Raise e, [enter])
         | None \<Rightarrow>
             (case body (hist @ [enter]) of
                (fl, evs) \<Rightarrow> (fl, enter # evs @ [LockExit lf])))"

text \<open>The loop \<^verbatim>\<open>for sync_list in (openvas_syncs, gvmd_syncs)\<close>, over any groups.\<close>

fun sync_lists_loop ::
  "env \<Rightarrow> args \<Rightarrow> Rsync \<Rightarrow> int option \<Rightarrow> SyncList list \<Rightarrow> bool \<Rightarrow> event list
   \<Rightarrow> flow \<times> event list" where
  "sync_lists_loop env a rsync wait [] has_error hist = (Next has_error, [])"
| "sync_lists_loop env a rsync wait (sync_list # rest) has_error hist =
     (if syncs sync_list = [] then sync_lists_loop env a rsync wait rest has_error hist
      else
        (case flock_wait env (lock_file sync_list) (verbose a \<ge> 2) wait
                (sync_loop env a rsync (syncs sync_list) has_error) hist of
           (Next has_error', evs) \<Rightarrow>
             (case sync_lists_loop env a rsync wait rest has_error' (hist @ evs) of
                (fl, later) \<Rightarrow> (fl, evs @ later))
         | (fl, evs) \<Rightarrow> (fl, evs)))"

definition openvas_syncs :: "args \<Rightarrow> SyncList" where
  "openvas_syncs a =
     filter_syncs (openvas_lock_file a) (type a)
       [\<lparr>name = ''Notus files'', types = [''notus'', ''nvt'', ''all''],
         url = notus_url a, destination = notus_destination a\<rparr>,
        \<lparr>name = ''NASL files'', types = [''nasl'', ''nvt'', ''all''],
         url = nasl_url a, destination = nasl_destination a\<rparr>]"

definition gvmd_syncs :: "args \<Rightarrow> SyncList" where
  "gvmd_syncs a =
     filter_syncs (gvmd_lock_file a) (type a)
       [\<lparr>name = ''SCAP data'', types = [''scap'', ''all''],
         url = scap_data_url a, destination = scap_data_destination a\<rparr>,
        \<lparr>name = ''CERT-Bund data'', types = [''cert'', ''all''],
         url = cert_data_url a, destination = cert_data_destination a\<rparr>,
        \<lparr>name = ''report formats'', types = [''report-format'', ''gvmd-data'', ''all''],
         url = report_formats_url a, destination = report_formats_destination a\<rparr>,
        \<lparr>name = ''scan configs'', types = [''scan-config'', ''gvmd-data'', ''all''],
         url = scan_configs_url a, destination = scan_configs_destination a\<rparr>,
        \<lparr>name = ''port lists'', types = [''port-list'', ''gvmd-data'', ''all''],
         url = port_lists_url a, destination = port_lists_destination a\<rparr>]"

definition root_message :: string where
  "root_message =
     ''The sync script should not be run as root. Running the script as ''
     @ ''root may cause several hard to find permissions issues.''"

text \<open>
  \<^verbatim>\<open>feed_sync\<close>: \<open>Inl e\<close> when the exception \<open>e\<close> leaves the coroutine, \<open>Inr v\<close>
  when it returns \<open>v\<close>; with the events of the run.
\<close>

definition feed_sync :: "env \<Rightarrow> (exn + int) \<times> event list" where
  "feed_sync env =
     (if is_root env then (Inl (GreenboneFeedSyncError root_message), [])
      else
        (let a = parse_arguments env;
             rsync = \<lparr>private_subdir = private_directory a,
                      rsync_verbose = (verbose a \<ge> 3),
                      rsync_compression_level = compression_level a\<rparr>;
             calls = [CallFilterSyncs (openvas_lock_file a) (type a),
                      CallFilterSyncs (gvmd_lock_file a) (type a)];
             wait = (if no_wait a then None else Some (wait_interval a))
         in case sync_lists_loop env a rsync wait [openvas_syncs a, gvmd_syncs a]
                   False calls of
              (Next has_error, evs) \<Rightarrow> (Inr (if has_error then 1 else 0), calls @ evs)
            | (Return v, evs) \<Rightarrow> (Inr v, calls @ evs)
            | (Raise e, evs) \<Rightarrow> (Inl e, calls @ evs)))"

subsection \<open>The entry point\<close>

text \<open>
  How the process ends: \<^verbatim>\<open>sys.exit(v)\<close>, or an exception that no handler of
  \<^verbatim>\<open>main\<close> catches.
\<close>

datatype exit = Exit int | Uncaught exn

definition main :: "env \<Rightarrow> exit \<times> event list" where
  "main env =
     (case feed_sync env of
        (Inr v, evs) \<Rightarrow> (Exit v, evs)
      | (Inl e, evs) \<Rightarrow>
          if isinstance e ''GreenboneFeedSyncError''
          then (Exit 1, evs @ [PrintStderr (message e)])
          else if isinstance e ''KeyboardInterrupt'' then (Exit 1, evs)
          else (Uncaught e, evs))"

subsection \<open>Observations on a run\<close>

text \<open>The source and the destination that \<^verbatim>\<open>rsync.sync\<close> is called with for a sync.\<close>

definition target :: "Sync \<Rightarrow> string \<times> string" where
  "target sync = (url sync, destination sync)"

text \<open>The transfers of a run, in the order of their invocation.\<close>

fun transfers :: "event list \<Rightarrow> (string \<times> string) list" where
  "transfers [] = []"
| "transfers (Transfer u d r # es) = (u, d) # transfers es"
| "transfers (_ # es) = transfers es"

text \<open>The lock files for which a run asked for the lock, in order.\<close>

fun lock_requests :: "event list \<Rightarrow> string list" where
  "lock_requests [] = []"
| "lock_requests (LockEnter lf vb w r # es) = lf # lock_requests es"
| "lock_requests (_ # es) = lock_requests es"

text \<open>A transfer that raised the transfer error \<^verbatim>\<open>RsyncError\<close>.\<close>

fun rsync_failure :: "event \<Rightarrow> bool" where
  "rsync_failure (Transfer u d (Some e)) = isinstance e ''RsyncError''"
| "rsync_failure _ = False"

text \<open>
  A collaborator call that raised an exception which \<^verbatim>\<open>feed_sync\<close> has no handler
  for: a transfer raising something else than \<^verbatim>\<open>RsyncError\<close>, or a failed or
  interrupted lock acquisition.
\<close>

fun interrupting :: "event \<Rightarrow> bool" where
  "interrupting (Transfer u d (Some e)) = (\<not> isinstance e ''RsyncError'')"
| "interrupting (LockEnter lf vb w (Some e)) = True"
| "interrupting _ = False"

fun is_lock_event :: "event \<Rightarrow> bool" where
  "is_lock_event (LockEnter lf vb w r) = True"
| "is_lock_event (LockExit lf) = True"
| "is_lock_event _ = False"

text \<open>
  The lock that is held after a sequence of events, by the contract of the lock helper:
  a successful entry into the block acquires the lock, leaving the block releases it.
\<close>

fun lock_step :: "string option \<Rightarrow> event \<Rightarrow> string option" where
  "lock_step h (LockEnter lf vb w None) = Some lf"
| "lock_step h (LockExit lf) = None"
| "lock_step h _ = h"

definition current_lock :: "event list \<Rightarrow> string option" where
  "current_lock es = foldl lock_step None es"

text \<open>The syncs of a run of \<^verbatim>\<open>feed_sync\<close>, group after group.\<close>

definition plan :: "args \<Rightarrow> Sync list" where
  "plan a = syncs (openvas_syncs a) @ syncs (gvmd_syncs a)"

text \<open>What \<^verbatim>\<open>feed_sync\<close> makes of the way its loop ended.\<close>

fun outcome :: "flow \<Rightarrow> exn + int" where
  "outcome (Next has_error) = Inr (if has_error then 1 else 0)"
| "outcome (Return v) = Inr v"
| "outcome (Raise e) = Inl e"

subsection \<open>Auxiliary notions for the proofs\<close>

text \<open>\<open>suffixes_all P xs\<close>: every element of \<open>xs\<close> satisfies \<open>P\<close> with the elements after it.\<close>

fun suffixes_all :: "('a \<Rightarrow> 'a list \<Rightarrow> bool) \<Rightarrow> 'a list \<Rightarrow> bool" where
  "suffixes_all P [] = True"
| "suffixes_all P (x # xs) = (P x xs \<and> suffixes_all P xs)"

text \<open>A failed transfer after which the loops do not go on.\<close>

fun terminal :: "args \<Rightarrow> event \<Rightarrow> bool" where
  "terminal a (Transfer u d (Some e)) = (isinstance e ''RsyncError'' \<longrightarrow> fail_fast a)"
| "terminal a _ = False"

text \<open>
  What follows a failed transfer: the diagnostic output for a transfer error, and then,
  where the failure ends the loops, the closing events \<open>fin\<close> and the flow \<open>fl\<close>.
\<close>

fun after_failure :: "args \<Rightarrow> flow \<Rightarrow> event list \<Rightarrow> event \<Rightarrow> event list \<Rightarrow> bool" where
  "after_failure a fl fin (Transfer u d (Some e)) es =
     (if isinstance e ''RsyncError''
      then (\<exists>es'. es = PrintStderr (stderr e) # es' \<and>
                  (fail_fast a \<longrightarrow> es' = fin \<and> fl = Return 1))
      else es = fin \<and> fl = Raise e)"
| "after_failure a fl fin _ es = True"

text \<open>A lock that was acquired is released before any other lock event.\<close>

fun released_after :: "event \<Rightarrow> event list \<Rightarrow> bool" where
  "released_after (LockEnter lf vb w None) es =
     (\<exists>body rest. es = body @ LockExit lf # rest \<and> (\<forall>x\<in>set body. \<not> is_lock_event x))"
| "released_after _ es = True"

text \<open>Every exit from a block under a lock releases the lock that is held at that moment.\<close>

fun exits_match :: "string option \<Rightarrow> event list \<Rightarrow> bool" where
  "exits_match h [] = True"
| "exits_match h (LockExit lf # es) = (h = Some lf \<and> exits_match None es)"
| "exits_match h (ev # es) = exits_match (lock_step h ev) es"

subsection \<open>Example runs\<close>

definition example_args :: args where
  "example_args =
     \<lparr>private_directory = None, verbose = 0, compression_level = 9,
      openvas_lock_file = ''/run/openvas.lock'', gvmd_lock_file = ''/run/gvmd.lock'',
      type = ''all'',
      notus_url = ''feed/notus'', notus_destination = ''/notus'',
      nasl_url = ''feed/nasl'', nasl_destination = ''/nasl'',
      scap_data_url = ''feed/scap'', scap_data_destination = ''/scap'',
      cert_data_url = ''feed/cert'', cert_data_destination = ''/cert'',
      report_formats_url = ''feed/rf'', report_formats_destination = ''/rf'',
      scan_configs_url = ''feed/sc'', scan_configs_destination = ''/sc'',
      port_lists_url = ''feed/pl'', port_lists_destination = ''/pl'',
      no_wait = False, wait_interval = 5, fail_fast = False\<rparr>"

definition rsync_error :: exn where
  "rsync_error =
     \<lparr>classes = [''RsyncError'', ''GreenboneFeedSyncError'', ''Exception'', ''BaseException''],
      message = ''rsync failed'', stderr = ''connection refused''\<rparr>"

definition keyboard_interrupt :: exn where
  "keyboard_interrupt =
     \<lparr>classes = [''KeyboardInterrupt'', ''BaseException''], message = '''', stderr = ''''\<rparr>"

text \<open>Every transfer succeeds.\<close>

definition env_ok :: env where
  "env_ok =
     \<lparr>geteuid = 1000, parse_arguments = example_args,
      rsync_sync = (\<lambda>h r u d. None), flock_acquire = (\<lambda>h lf vb w. None)\<rparr>"

text \<open>The transfer of the NASL files fails; the run goes on.\<close>

definition env_recorded :: env where
  "env_recorded =
     env_ok\<lparr>rsync_sync := (\<lambda>h r u d. if u = ''feed/nasl'' then Some rsync_error else None)\<rparr>"

text \<open>The same failure under \<^verbatim>\<open>--fail-fast\<close>.\<close>

definition env_fail_fast :: env where
  "env_fail_fast = env_recorded\<lparr>parse_arguments := example_args\<lparr>fail_fast := True\<rparr>\<rparr>"

text \<open>The run is interrupted during the transfer of the NASL files.\<close>

definition env_interrupted :: env where
  "env_interrupted =
     env_ok\<lparr>rsync_sync :=
              (\<lambda>h r u d. if u = ''feed/nasl'' then Some keyboard_interrupt else None)\<rparr>"

text \<open>The run of the user root.\<close>

definition env_root :: env where
  "env_root = env_ok\<lparr>geteuid := 0\<rparr>"

text \<open>Only the SCAP data is asked for: the first group is empty.\<close>

definition env_scap :: env where
  "env_scap = env_ok\<lparr>parse_arguments := example_args\<lparr>type := ''scap''\<rparr>\<rparr>"

text \<open>The events of these runs.\<close>

definition calls_all :: "event list" where
  "calls_all = [CallFilterSyncs ''/run/openvas.lock'' ''all'',
                CallFilterSyncs ''/run/gvmd.lock'' ''all'']"

definition enter_openvas :: event where
  "enter_openvas = LockEnter ''/run/openvas.lock'' False (Some 5) None"

definition pre_nasl :: "event list" where
  "pre_nasl = calls_all @ [enter_openvas, Transfer ''feed/notus'' ''/notus'' None]"

definition post_gvmd :: "event list" where
  "post_gvmd =
     [LockExit ''/run/openvas.lock'',
      LockEnter ''/run/gvmd.lock'' False (Some 5) None,
      Transfer ''feed/scap'' ''/scap'' None,
      Transfer ''feed/cert'' ''/cert'' None,
      Transfer ''feed/rf'' ''/rf'' None,
      Transfer ''feed/sc'' ''/sc'' None,
      Transfer ''feed/pl'' ''/pl'' None,
      LockExit ''/run/gvmd.lock'']"

definition trace_ok :: "event list" where
  "trace_ok = pre_nasl @ Transfer ''feed/nasl'' ''/nasl'' None # post_gvmd"

section \<open>Properties\<close>

subsection \<open>Lists of events\<close>

lemma suffixes_all_append:
  "suffixes_all P (xs @ ys) = (suffixes_all (\<lambda>x zs. P x (zs @ ys)) xs \<and> suffixes_all P ys)"
  by (induction xs) auto

lemma suffixes_allD: "suffixes_all P xs \<Longrightarrow> xs = pre @ x # post \<Longrightarrow> P x post"
  by (induction pre arbitrary: xs) auto

lemma suffixes_all_mono:
  "suffixes_all P xs \<Longrightarrow> (\<And>x zs. x \<in> set xs \<Longrightarrow> P x zs \<Longrightarrow> Q x zs) \<Longrightarrow> suffixes_all Q xs"
  by (induction xs) auto

lemma suffixes_all_triv: "(\<And>x zs. x \<in> set xs \<Longrightarrow> P x zs) \<Longrightarrow> suffixes_all P xs"
  by (induction xs) auto

lemma transfers_append: "transfers (xs @ ys) = transfers xs @ transfers ys"
  by (induction xs rule: transfers.induct) auto

lemma lock_requests_append: "lock_requests (xs @ ys) = lock_requests xs @ lock_requests ys"
  by (induction xs rule: lock_requests.induct) auto

lemma transfers_no_lock_requests:
  "\<forall>ev\<in>set xs. \<not> is_lock_event ev \<Longrightarrow> lock_requests xs = []"
  by (induction xs rule: lock_requests.induct) auto

lemma announce_cases: "x \<in> set (announce a s) \<Longrightarrow> \<exists>m. x = PrintStdout m"
  by (auto simp: announce_def split: if_splits)

lemma transfers_announce: "transfers (announce a s) = []"
  by (simp add: announce_def)

lemma after_failure_extend:
  "after_failure a fl [] x zs \<Longrightarrow> after_failure a fl fin x (zs @ fin)"
  by (induction a fl "[] :: event list" x zs rule: after_failure.induct) auto

lemma after_failure_nonterminal:
  "\<not> terminal a x \<Longrightarrow> after_failure a fl0 fin0 x zs \<Longrightarrow> after_failure a fl fin x (zs @ later)"
  by (induction a fl0 fin0 x zs rule: after_failure.induct) auto

lemma released_after_extend:
  assumes "released_after x zs"
  shows "released_after x (zs @ later)"
proof (cases "\<exists>lf vb w. x = LockEnter lf vb w None")
  case True
  then obtain lf vb w where x: "x = LockEnter lf vb w None" by blast
  with assms obtain body rest where
    "zs = body @ LockExit lf # rest" "\<forall>y\<in>set body. \<not> is_lock_event y" by auto
  then have "zs @ later = body @ LockExit lf # (rest @ later) \<and>
             (\<forall>y\<in>set body. \<not> is_lock_event y)" by simp
  then show ?thesis unfolding x released_after.simps by blast
next
  case False
  show ?thesis
  proof (cases x)
    case (LockEnter lf vb w r)
    with False show ?thesis by (cases r) auto
  qed simp_all
qed

lemma lock_step_other: "\<not> is_lock_event ev \<Longrightarrow> lock_step h ev = h"
  by (cases ev) simp_all

lemma held_lock_free: "\<forall>ev\<in>set xs. \<not> is_lock_event ev \<Longrightarrow> foldl lock_step h xs = h"
  by (induction xs) (simp_all add: lock_step_other)

lemma exits_match_lock_free: "\<forall>ev\<in>set xs. \<not> is_lock_event ev \<Longrightarrow> exits_match h xs"
proof (induction xs)
  case Nil
  show ?case by simp
next
  case (Cons x xs)
  then have "lock_step h x = h" "\<not> is_lock_event x" "exits_match h xs"
    by (simp_all add: lock_step_other)
  then show ?case by (cases x) simp_all
qed

lemma exits_match_append:
  "exits_match h (xs @ ys) = (exits_match h xs \<and> exits_match (foldl lock_step h xs) ys)"
proof (induction xs arbitrary: h)
  case Nil
  show ?case by simp
next
  case (Cons x xs)
  then show ?case by (cases x) auto
qed

lemma exits_matchD:
  "exits_match h tr \<Longrightarrow> tr = pre @ LockExit lf # post \<Longrightarrow> foldl lock_step h pre = Some lf"
  by (simp add: exits_match_append)

subsection \<open>The loop over the syncs of a group\<close>

lemma sync_loop_ConsE:
  assumes "sync_loop env a rs (s # ss) he hist = (fl, evs)"
  obtains
    (ok) later where
      "evs = announce a s @ Transfer (url s) (destination s) None # later"
      "sync_loop env a rs ss he
         (hist @ announce a s @ [Transfer (url s) (destination s) None]) = (fl, later)"
  | (recorded) e later where
      "isinstance e ''RsyncError''" "\<not> fail_fast a"
      "evs = announce a s @ Transfer (url s) (destination s) (Some e)
               # PrintStderr (stderr e) # later"
      "sync_loop env a rs ss True
         (hist @ announce a s @ [Transfer (url s) (destination s) (Some e),
                                 PrintStderr (stderr e)]) = (fl, later)"
  | (aborted) e where
      "isinstance e ''RsyncError''" "fail_fast a"
      "evs = announce a s @ [Transfer (url s) (destination s) (Some e),
                             PrintStderr (stderr e)]"
      "fl = Return 1"
  | (raised) e where
      "\<not> isinstance e ''RsyncError''"
      "evs = announce a s @ [Transfer (url s) (destination s) (Some e)]"
      "fl = Raise e"
  using assms by (auto simp: Let_def split: option.splits if_splits prod.splits)

lemma sync_loop_after_failure:
  "sync_loop env a rs ss he hist = (fl, evs) \<Longrightarrow>
   suffixes_all (after_failure a fl []) evs \<and>
   (\<forall>b. fl = Next b \<longrightarrow> (\<forall>ev\<in>set evs. \<not> terminal a ev))"
proof (induction ss arbitrary: he hist fl evs)
  case Nil
  then show ?case by simp
next
  case (Cons s ss)
  then show ?case
    by (auto simp: Let_def suffixes_all_append announce_def
             split: option.splits if_splits prod.splits)
qed

lemma sync_loop_transfers:
  "sync_loop env a rs ss he hist = (fl, evs) \<Longrightarrow>
   prefix (transfers evs) (map target ss) \<and>
   (\<forall>b. fl = Next b \<longrightarrow> transfers evs = map target ss)"
proof (induction ss arbitrary: he hist fl evs)
  case Nil
  then show ?case by simp
next
  case (Cons s ss)
  then show ?case
    by (auto simp: Let_def transfers_append target_def announce_def
             split: option.splits if_splits prod.splits)
qed

lemma sync_loop_no_lock:
  "sync_loop env a rs ss he hist = (fl, evs) \<Longrightarrow> \<forall>ev\<in>set evs. \<not> is_lock_event ev"
proof (induction ss arbitrary: he hist fl evs)
  case Nil
  then show ?case by simp
next
  case (Cons s ss)
  then show ?case
    by (auto simp: Let_def announce_def split: option.splits if_splits prod.splits)
qed

lemma sync_loop_result:
  "sync_loop env a rs ss he hist = (fl, evs) \<Longrightarrow>
   (\<forall>b. fl = Next b \<longrightarrow> b = (he \<or> (\<exists>ev\<in>set evs. rsync_failure ev))) \<and>
   (\<forall>v. fl = Return v \<longrightarrow> v = 1 \<and> (\<exists>ev\<in>set evs. rsync_failure ev))"
proof (induction ss arbitrary: he hist fl evs)
  case Nil
  then show ?case by auto
next
  case (Cons s ss)
  from Cons.prems show ?case
  proof (cases rule: sync_loop_ConsE)
    case (ok later)
    from Cons.IH [OF ok(2)] ok(1) show ?thesis
      by (auto dest: announce_cases)
  next
    case (recorded e later)
    from Cons.IH [OF recorded(4)] recorded(1,3) show ?thesis
      by (auto dest: announce_cases)
  next
    case (aborted e)
    then show ?thesis by simp
  next
    case (raised e)
    then show ?thesis by simp
  qed
qed

lemma sync_loop_completes:
  "sync_loop env a rs ss he hist = (fl, evs) \<Longrightarrow> \<not> fail_fast a \<Longrightarrow>
   \<forall>ev\<in>set evs. \<not> interrupting ev \<Longrightarrow> \<exists>b. fl = Next b"
proof (induction ss arbitrary: he hist fl evs)
  case Nil
  then show ?case by auto
next
  case (Cons s ss)
  from Cons.prems(1) show ?case
  proof (cases rule: sync_loop_ConsE)
    case (ok later)
    from Cons.IH [OF ok(2) Cons.prems(2)] Cons.prems(3) ok(1) show ?thesis by simp
  next
    case (recorded e later)
    from Cons.IH [OF recorded(4) Cons.prems(2)] Cons.prems(3) recorded(3) show ?thesis by simp
  next
    case (aborted e)
    with Cons.prems(2) show ?thesis by simp
  next
    case (raised e)
    with Cons.prems(3) show ?thesis by simp
  qed
qed

subsection \<open>The block under the lock\<close>

lemma flock_wait_cases:
  assumes "flock_wait env lf vb w body hist = (fl, evs)"
  shows "(\<exists>e. fl = Raise e \<and> evs = [LockEnter lf vb w (Some e)]) \<or>
         (\<exists>inner. body (hist @ [LockEnter lf vb w None]) = (fl, inner) \<and>
                   evs = LockEnter lf vb w None # inner @ [LockExit lf])"
  using assms by (auto simp: flock_wait_def Let_def split: option.splits prod.splits)

lemma block_after_failure:
  assumes "flock_wait env lf vb w (sync_loop env a rs ss he) hist = (fl, evs)"
  shows "suffixes_all (after_failure a fl [LockExit lf]) evs \<and>
         (\<forall>b. fl = Next b \<longrightarrow> (\<forall>ev\<in>set evs. \<not> terminal a ev))"
  using flock_wait_cases [OF assms]
proof (elim disjE exE conjE)
  fix e assume "fl = Raise e" "evs = [LockEnter lf vb w (Some e)]"
  then show ?thesis by simp
next
  fix inner
  assume inner: "sync_loop env a rs ss he (hist @ [LockEnter lf vb w None]) = (fl, inner)"
    and evs: "evs = LockEnter lf vb w None # inner @ [LockExit lf]"
  from sync_loop_after_failure [OF inner]
  have 1: "suffixes_all (after_failure a fl []) inner"
    and 2: "\<forall>b. fl = Next b \<longrightarrow> (\<forall>ev\<in>set inner. \<not> terminal a ev)" by simp_all
  from 1 have "suffixes_all (\<lambda>x zs. after_failure a fl [LockExit lf] x (zs @ [LockExit lf])) inner"
    by (rule suffixes_all_mono) (rule after_failure_extend)
  with 2 evs show ?thesis by (simp add: suffixes_all_append)
qed

lemma block_transfers:
  assumes "flock_wait env lf vb w (sync_loop env a rs ss he) hist = (fl, evs)"
  shows "prefix (transfers evs) (map target ss) \<and>
         (\<forall>b. fl = Next b \<longrightarrow> transfers evs = map target ss)"
  using flock_wait_cases [OF assms]
  by (auto simp: transfers_append dest: sync_loop_transfers)

lemma block_result:
  assumes "flock_wait env lf vb w (sync_loop env a rs ss he) hist = (fl, evs)"
  shows "(\<forall>b. fl = Next b \<longrightarrow> b = (he \<or> (\<exists>ev\<in>set evs. rsync_failure ev))) \<and>
         (\<forall>v. fl = Return v \<longrightarrow> v = 1 \<and> (\<exists>ev\<in>set evs. rsync_failure ev))"
  using flock_wait_cases [OF assms]
proof (elim disjE exE conjE)
  fix e assume "fl = Raise e" "evs = [LockEnter lf vb w (Some e)]"
  then show ?thesis by simp
next
  fix inner
  assume inner: "sync_loop env a rs ss he (hist @ [LockEnter lf vb w None]) = (fl, inner)"
    and evs: "evs = LockEnter lf vb w None # inner @ [LockExit lf]"
  from sync_loop_result [OF inner] evs show ?thesis by simp
qed

lemma block_completes:
  assumes "flock_wait env lf vb w (sync_loop env a rs ss he) hist = (fl, evs)"
    and "\<not> fail_fast a" and "\<forall>ev\<in>set evs. \<not> interrupting ev"
  shows "\<exists>b. fl = Next b"
  using flock_wait_cases [OF assms(1)]
proof (elim disjE exE conjE)
  fix e assume "fl = Raise e" "evs = [LockEnter lf vb w (Some e)]"
  with assms(3) show ?thesis by simp
next
  fix inner
  assume inner: "sync_loop env a rs ss he (hist @ [LockEnter lf vb w None]) = (fl, inner)"
    and evs: "evs = LockEnter lf vb w None # inner @ [LockExit lf]"
  from assms(3) evs have "\<forall>ev\<in>set inner. \<not> interrupting ev" by simp
  from sync_loop_completes [OF inner assms(2) this] show ?thesis .
qed

lemma block_locks:
  assumes "flock_wait env lf vb w (sync_loop env a rs ss he) hist = (fl, evs)"
  shows "suffixes_all released_after evs \<and> lock_requests evs = [lf]"
  using flock_wait_cases [OF assms]
proof (elim disjE exE conjE)
  fix e assume "fl = Raise e" "evs = [LockEnter lf vb w (Some e)]"
  then show ?thesis by simp
next
  fix inner
  assume inner: "sync_loop env a rs ss he (hist @ [LockEnter lf vb w None]) = (fl, inner)"
    and evs: "evs = LockEnter lf vb w None # inner @ [LockExit lf]"
  from sync_loop_no_lock [OF inner] have nl: "\<forall>ev\<in>set inner. \<not> is_lock_event ev" .
  have "suffixes_all (\<lambda>x zs. released_after x (zs @ [LockExit lf])) inner"
  proof (rule suffixes_all_triv)
    fix x zs assume "x \<in> set inner"
    with nl have "\<not> is_lock_event x" by simp
    then show "released_after x (zs @ [LockExit lf])" by (cases x) simp_all
  qed
  moreover from nl have "released_after (LockEnter lf vb w None) (inner @ [LockExit lf])"
    by auto
  ultimately show ?thesis
    using evs nl by (simp add: suffixes_all_append lock_requests_append transfers_no_lock_requests)
qed

lemma block_exits:
  assumes "flock_wait env lf vb w (sync_loop env a rs ss he) hist = (fl, evs)"
  shows "exits_match None evs \<and> foldl lock_step None evs = None"
  using flock_wait_cases [OF assms]
proof (elim disjE exE conjE)
  fix e assume "fl = Raise e" "evs = [LockEnter lf vb w (Some e)]"
  then show ?thesis by simp
next
  fix inner
  assume inner: "sync_loop env a rs ss he (hist @ [LockEnter lf vb w None]) = (fl, inner)"
    and evs: "evs = LockEnter lf vb w None # inner @ [LockExit lf]"
  from sync_loop_no_lock [OF inner] have nl: "\<forall>ev\<in>set inner. \<not> is_lock_event ev" .
  from nl have "exits_match (Some lf) inner" "foldl lock_step (Some lf) inner = Some lf"
    by (simp_all add: exits_match_lock_free held_lock_free)
  with evs show ?thesis by (simp add: exits_match_append)
qed

subsection \<open>The loop over the groups\<close>

lemma sync_lists_loop_ConsE:
  assumes "sync_lists_loop env a rs w (g # gs) he hist = (fl, evs)"
  obtains
    (skip) "syncs g = []" "sync_lists_loop env a rs w gs he hist = (fl, evs)"
  | (continue) b evs1 later where
      "syncs g \<noteq> []"
      "flock_wait env (lock_file g) (2 \<le> verbose a) w
         (sync_loop env a rs (syncs g) he) hist = (Next b, evs1)"
      "sync_lists_loop env a rs w gs b (hist @ evs1) = (fl, later)"
      "evs = evs1 @ later"
  | (stop)
      "syncs g \<noteq> []"
      "flock_wait env (lock_file g) (2 \<le> verbose a) w
         (sync_loop env a rs (syncs g) he) hist = (fl, evs)"
      "\<forall>b. fl \<noteq> Next b"
  using assms by (auto split: if_splits prod.splits flow.splits)

lemma loop_after_failure:
  "sync_lists_loop env a rs w gs he hist = (fl, evs) \<Longrightarrow>
   suffixes_all (\<lambda>x zs. \<exists>lf. after_failure a fl [LockExit lf] x zs) evs \<and>
   (\<forall>b. fl = Next b \<longrightarrow> (\<forall>ev\<in>set evs. \<not> terminal a ev))"
proof (induction gs arbitrary: he hist fl evs)
  case Nil
  then show ?case by auto
next
  case (Cons g gs)
  from Cons.prems show ?case
  proof (cases rule: sync_lists_loop_ConsE)
    case skip
    from Cons.IH [OF skip(2)] show ?thesis .
  next
    case (continue b evs1 later)
    from block_after_failure [OF continue(2)]
    have 1: "suffixes_all (after_failure a (Next b) [LockExit (lock_file g)]) evs1"
      and 2: "\<forall>ev\<in>set evs1. \<not> terminal a ev" by simp_all
    from 1 have "suffixes_all (\<lambda>x zs. \<exists>lf. after_failure a fl [LockExit lf] x (zs @ later)) evs1"
    proof (rule suffixes_all_mono)
      fix x zs
      assume "x \<in> set evs1" "after_failure a (Next b) [LockExit (lock_file g)] x zs"
      with 2 have "after_failure a fl [LockExit (lock_file g)] x (zs @ later)"
        by (auto intro: after_failure_nonterminal)
      then show "\<exists>lf. after_failure a fl [LockExit lf] x (zs @ later)" ..
    qed
    with Cons.IH [OF continue(3)] 2 continue(4) show ?thesis
      by (auto simp: suffixes_all_append)
  next
    case stop
    from block_after_failure [OF stop(2)]
    have "suffixes_all (after_failure a fl [LockExit (lock_file g)]) evs" by simp
    then have "suffixes_all (\<lambda>x zs. \<exists>lf. after_failure a fl [LockExit lf] x zs) evs"
      by (rule suffixes_all_mono) blast
    with stop(3) show ?thesis by simp
  qed
qed

lemma loop_transfers:
  "sync_lists_loop env a rs w gs he hist = (fl, evs) \<Longrightarrow>
   prefix (transfers evs) (map target (concat (map syncs gs))) \<and>
   (\<forall>b. fl = Next b \<longrightarrow> transfers evs = map target (concat (map syncs gs)))"
proof (induction gs arbitrary: he hist fl evs)
  case Nil
  then show ?case by auto
next
  case (Cons g gs)
  from Cons.prems show ?case
  proof (cases rule: sync_lists_loop_ConsE)
    case skip
    from Cons.IH [OF skip(2)] skip(1) show ?thesis by simp
  next
    case (continue b evs1 later)
    from block_transfers [OF continue(2)]
    have "transfers evs1 = map target (syncs g)" by simp
    with Cons.IH [OF continue(3)] continue(4) show ?thesis
      by (simp add: transfers_append)
  next
    case stop
    from block_transfers [OF stop(2)]
    have "prefix (transfers evs) (map target (syncs g))" by simp
    with stop(3) show ?thesis by (simp add: prefix_prefix)
  qed
qed

lemma loop_result:
  "sync_lists_loop env a rs w gs he hist = (fl, evs) \<Longrightarrow>
   (\<forall>b. fl = Next b \<longrightarrow> b = (he \<or> (\<exists>ev\<in>set evs. rsync_failure ev))) \<and>
   (\<forall>v. fl = Return v \<longrightarrow> v = 1 \<and> (\<exists>ev\<in>set evs. rsync_failure ev))"
proof (induction gs arbitrary: he hist fl evs)
  case Nil
  then show ?case by auto
next
  case (Cons g gs)
  from Cons.prems show ?case
  proof (cases rule: sync_lists_loop_ConsE)
    case skip
    from Cons.IH [OF skip(2)] show ?thesis .
  next
    case (continue b evs1 later)
    from block_result [OF continue(2)]
    have "b = (he \<or> (\<exists>ev\<in>set evs1. rsync_failure ev))" by simp
    with Cons.IH [OF continue(3)] continue(4) show ?thesis by auto
  next
    case stop
    from block_result [OF stop(2)] show ?thesis .
  qed
qed

lemma loop_completes:
  "sync_lists_loop env a rs w gs he hist = (fl, evs) \<Longrightarrow> \<not> fail_fast a \<Longrightarrow>
   \<forall>ev\<in>set evs. \<not> interrupting ev \<Longrightarrow> \<exists>b. fl = Next b"
proof (induction gs arbitrary: he hist fl evs)
  case Nil
  then show ?case by auto
next
  case (Cons g gs)
  from Cons.prems(1) show ?case
  proof (cases rule: sync_lists_loop_ConsE)
    case skip
    from Cons.IH [OF skip(2) Cons.prems(2,3)] show ?thesis .
  next
    case (continue b evs1 later)
    from Cons.prems(3) continue(4) have "\<forall>ev\<in>set later. \<not> interrupting ev" by simp
    from Cons.IH [OF continue(3) Cons.prems(2) this] show ?thesis .
  next
    case stop
    from block_completes [OF stop(2) Cons.prems(2,3)] show ?thesis .
  qed
qed

lemma loop_locks:
  "sync_lists_loop env a rs w gs he hist = (fl, evs) \<Longrightarrow>
   suffixes_all released_after evs \<and>
   prefix (lock_requests evs) (map lock_file (filter (\<lambda>g. syncs g \<noteq> []) gs))"
proof (induction gs arbitrary: he hist fl evs)
  case Nil
  then show ?case by auto
next
  case (Cons g gs)
  from Cons.prems show ?case
  proof (cases rule: sync_lists_loop_ConsE)
    case skip
    from Cons.IH [OF skip(2)] skip(1) show ?thesis by simp
  next
    case (continue b evs1 later)
    from block_locks [OF continue(2)]
    have 1: "suffixes_all released_after evs1"
      and 2: "lock_requests evs1 = [lock_file g]" by simp_all
    from 1 have "suffixes_all (\<lambda>x zs. released_after x (zs @ later)) evs1"
      by (rule suffixes_all_mono) (rule released_after_extend)
    with Cons.IH [OF continue(3)] 2 continue(1,4) show ?thesis
      by (simp add: suffixes_all_append lock_requests_append)
  next
    case stop
    from block_locks [OF stop(2)] stop(1) show ?thesis by simp
  qed
qed

lemma loop_exits:
  "sync_lists_loop env a rs w gs he hist = (fl, evs) \<Longrightarrow>
   exits_match None evs \<and> foldl lock_step None evs = None"
proof (induction gs arbitrary: he hist fl evs)
  case Nil
  then show ?case by auto
next
  case (Cons g gs)
  from Cons.prems show ?case
  proof (cases rule: sync_lists_loop_ConsE)
    case skip
    from Cons.IH [OF skip(2)] show ?thesis .
  next
    case (continue b evs1 later)
    from block_exits [OF continue(2)] Cons.IH [OF continue(3)] continue(4)
    show ?thesis by (simp add: exits_match_append)
  next
    case stop
    from block_exits [OF stop(2)] show ?thesis .
  qed
qed

lemma loop_skips_empty:
  "sync_lists_loop env a rs w (filter (\<lambda>g. syncs g \<noteq> []) gs) he hist =
   sync_lists_loop env a rs w gs he hist"
proof (induction gs arbitrary: he hist)
  case Nil
  show ?case by simp
next
  case (Cons g gs)
  show ?case
    by (cases "syncs g = []") (simp_all add: Cons.IH split: prod.splits flow.splits)
qed

subsection \<open>The coroutine\<close>

lemma feed_sync_run:
  assumes "\<not> is_root env" and "feed_sync env = (res, tr)"
  shows "\<exists>rs w calls fl evs.
           sync_lists_loop env (parse_arguments env) rs w
             [openvas_syncs (parse_arguments env), gvmd_syncs (parse_arguments env)]
             False calls = (fl, evs) \<and>
           calls = [CallFilterSyncs (openvas_lock_file (parse_arguments env))
                      (type (parse_arguments env)),
                    CallFilterSyncs (gvmd_lock_file (parse_arguments env))
                      (type (parse_arguments env))] \<and>
           tr = calls @ evs \<and> res = outcome fl"
proof -
  let ?a = "parse_arguments env"
  let ?rs = "\<lparr>private_subdir = private_directory ?a, rsync_verbose = (3 \<le> verbose ?a),
              rsync_compression_level = compression_level ?a\<rparr>"
  let ?w = "if no_wait ?a then None else Some (wait_interval ?a)"
  let ?calls = "[CallFilterSyncs (openvas_lock_file ?a) (type ?a),
                 CallFilterSyncs (gvmd_lock_file ?a) (type ?a)]"
  obtain fl evs where run:
    "sync_lists_loop env ?a ?rs ?w [openvas_syncs ?a, gvmd_syncs ?a] False ?calls = (fl, evs)"
    by (cases "sync_lists_loop env ?a ?rs ?w [openvas_syncs ?a, gvmd_syncs ?a] False ?calls")
  with assms have "tr = ?calls @ evs \<and> res = outcome fl"
    by (cases fl) (auto simp: feed_sync_def Let_def)
  with run show ?thesis by blast
qed

lemma feed_sync_after_failure:
  assumes "feed_sync env = (res, tr)" and "tr = pre @ Transfer u d (Some e) # post"
  shows "if isinstance e ''RsyncError''
         then \<exists>post'. post = PrintStderr (stderr e) # post' \<and>
                (fail_fast (parse_arguments env) \<longrightarrow>
                   (\<exists>lf. post' = [LockExit lf]) \<and> res = Inr 1)
         else (\<exists>lf. post = [LockExit lf]) \<and> res = Inl e"
proof -
  let ?a = "parse_arguments env"
  have nr: "\<not> is_root env"
    using assms by (auto simp: feed_sync_def)
  from feed_sync_run [OF nr assms(1)] obtain rs w calls fl evs where
    run: "sync_lists_loop env ?a rs w [openvas_syncs ?a, gvmd_syncs ?a] False calls = (fl, evs)"
    and calls: "calls = [CallFilterSyncs (openvas_lock_file ?a) (type ?a),
                         CallFilterSyncs (gvmd_lock_file ?a) (type ?a)]"
    and tr: "tr = calls @ evs" and res: "res = outcome fl" by blast
  from loop_after_failure [OF run]
  have "suffixes_all (\<lambda>x zs. \<exists>lf. after_failure ?a fl [LockExit lf] x zs) evs" by simp
  with tr calls have "suffixes_all (\<lambda>x zs. \<exists>lf. after_failure ?a fl [LockExit lf] x zs) tr"
    by simp
  from suffixes_allD [OF this assms(2)]
  obtain lf where "after_failure ?a fl [LockExit lf] (Transfer u d (Some e)) post" by blast
  with res show ?thesis by (auto split: if_splits)
qed

lemma feed_sync_transfers:
  assumes "feed_sync env = (res, tr)"
  shows "prefix (transfers tr) (map target (plan (parse_arguments env)))"
proof (cases "is_root env")
  case True
  with assms show ?thesis by (simp add: feed_sync_def)
next
  case False
  let ?a = "parse_arguments env"
  from feed_sync_run [OF False assms] obtain rs w calls fl evs where
    run: "sync_lists_loop env ?a rs w [openvas_syncs ?a, gvmd_syncs ?a] False calls = (fl, evs)"
    and calls: "calls = [CallFilterSyncs (openvas_lock_file ?a) (type ?a),
                         CallFilterSyncs (gvmd_lock_file ?a) (type ?a)]"
    and tr: "tr = calls @ evs" by blast
  from loop_transfers [OF run] tr calls show ?thesis by (simp add: plan_def)
qed

lemma feed_sync_exits:
  assumes "feed_sync env = (res, tr)"
  shows "exits_match None tr \<and> current_lock tr = None"
proof (cases "is_root env")
  case True
  with assms show ?thesis by (simp add: feed_sync_def current_lock_def)
next
  case False
  let ?a = "parse_arguments env"
  from feed_sync_run [OF False assms] obtain rs w calls fl evs where
    run: "sync_lists_loop env ?a rs w [openvas_syncs ?a, gvmd_syncs ?a] False calls = (fl, evs)"
    and calls: "calls = [CallFilterSyncs (openvas_lock_file ?a) (type ?a),
                         CallFilterSyncs (gvmd_lock_file ?a) (type ?a)]"
    and tr: "tr = calls @ evs" by blast
  from loop_exits [OF run] tr calls show ?thesis by (simp add: current_lock_def)
qed

lemma lock_before_exit:
  assumes "feed_sync env = (res, tr)" and "tr = pre @ mid @ [LockExit lf]"
    and "\<forall>ev\<in>set mid. \<not> is_lock_event ev"
  shows "current_lock pre = Some lf"
proof -
  from feed_sync_exits [OF assms(1)] have "exits_match None tr" ..
  moreover from assms(2) have "tr = (pre @ mid) @ LockExit lf # []" by simp
  ultimately have "foldl lock_step None (pre @ mid) = Some lf" by (rule exits_matchD)
  with assms(3) show ?thesis by (simp add: current_lock_def held_lock_free)
qed

subsection \<open>The example runs\<close>

lemmas example_defs =
  env_ok_def env_recorded_def env_fail_fast_def env_interrupted_def env_root_def env_scap_def
  example_args_def

lemmas run_defs =
  feed_sync_def is_root_def example_defs openvas_syncs_def gvmd_syncs_def filter_syncs_def
  flock_wait_def announce_def isinstance_def rsync_error_def keyboard_interrupt_def Let_def
  calls_all_def enter_openvas_def pre_nasl_def post_gvmd_def trace_ok_def

lemma plan_args:
  "plan example_args =
     [\<lparr>name = ''Notus files'', types = [''notus'', ''nvt'', ''all''],
       url = ''feed/notus'', destination = ''/notus''\<rparr>,
      \<lparr>name = ''NASL files'', types = [''nasl'', ''nvt'', ''all''],
       url = ''feed/nasl'', destination = ''/nasl''\<rparr>,
      \<lparr>name = ''SCAP data'', types = [''scap'', ''all''],
       url = ''feed/scap'', destination = ''/scap''\<rparr>,
      \<lparr>name = ''CERT-Bund data'', types = [''cert'', ''all''],
       url = ''feed/cert'', destination = ''/cert''\<rparr>,
      \<lparr>name = ''report formats'', types = [''report-format'', ''gvmd-data'', ''all''],
       url = ''feed/rf'', destination = ''/rf''\<rparr>,
      \<lparr>name = ''scan configs'', types = [''scan-config'', ''gvmd-data'', ''all''],
       url = ''feed/sc'', destination = ''/sc''\<rparr>,
      \<lparr>name = ''port lists'', types = [''port-list'', ''gvmd-data'', ''all''],
       url = ''feed/pl'', destination = ''/pl''\<rparr>]"
  by (simp add: plan_def openvas_syncs_def gvmd_syncs_def filter_syncs_def example_args_def)

lemma run_ok: "feed_sync env_ok = (Inr 0, trace_ok)"
  by (simp add: run_defs)

lemma run_recorded:
  "feed_sync env_recorded =
     (Inr 1, pre_nasl @ Transfer ''feed/nasl'' ''/nasl'' (Some rsync_error) #
               PrintStderr (stderr rsync_error) # post_gvmd)"
  by (simp add: run_defs)

lemma run_fail_fast:
  "feed_sync env_fail_fast =
     (Inr 1, pre_nasl @ Transfer ''feed/nasl'' ''/nasl'' (Some rsync_error) #
               [PrintStderr (stderr rsync_error), LockExit ''/run/openvas.lock''])"
  by (simp add: run_defs)

lemma run_interrupted:
  "feed_sync env_interrupted =
     (Inl keyboard_interrupt,
      pre_nasl @ Transfer ''feed/nasl'' ''/nasl'' (Some keyboard_interrupt) #
        [LockExit ''/run/openvas.lock''])"
  by (simp add: run_defs)

lemma run_scap:
  "feed_sync env_scap =
     (Inr 0, [CallFilterSyncs ''/run/openvas.lock'' ''scap'',
              CallFilterSyncs ''/run/gvmd.lock'' ''scap'',
              LockEnter ''/run/gvmd.lock'' False (Some 5) None,
              Transfer ''feed/scap'' ''/scap'' None,
              LockExit ''/run/gvmd.lock''])"
  by (simp add: run_defs)

section \<open>The claims\<close>

text \<open>
  C3. For every lock file, feed type and list of candidates, \<^verbatim>\<open>filter_syncs\<close> returns a
  group with the given lock file whose syncs are the candidates whose types contain the feed
  type, each as often as it occurs and in the original order: the sublist of the candidates
  at the matching positions. It is a subsequence of the candidates, and it is empty when no
  candidate matches. The function is total and has no effect: it emits no event and
  depends on nothing but its arguments.
\<close>

theorem filter_syncs_selects:
  "lock_file (filter_syncs lf t S) = lf \<and>
   syncs (filter_syncs lf t S) = nths S {i. i < length S \<and> t \<in> set (types (S ! i))} \<and>
   subseq (syncs (filter_syncs lf t S)) S \<and>
   set (syncs (filter_syncs lf t S)) = {s \<in> set S. t \<in> set (types s)} \<and>
   ((\<forall>s\<in>set S. t \<notin> set (types s)) \<longrightarrow> syncs (filter_syncs lf t S) = [])"
proof (intro conjI)
  show "lock_file (filter_syncs lf t S) = lf"
    by (simp add: filter_syncs_def)
  show "syncs (filter_syncs lf t S) = nths S {i. i < length S \<and> t \<in> set (types (S ! i))}"
    by (simp add: filter_syncs_def filter_eq_nths)
  show "subseq (syncs (filter_syncs lf t S)) S"
    by (simp add: filter_syncs_def)
  show "set (syncs (filter_syncs lf t S)) = {s \<in> set S. t \<in> set (types s)}"
    by (auto simp: filter_syncs_def)
  show "(\<forall>s\<in>set S. t \<notin> set (types s)) \<longrightarrow> syncs (filter_syncs lf t S) = []"
    by (simp add: filter_syncs_def filter_empty_conv)
qed

theorem filter_syncs_selects_witness:
  "\<not> (\<exists>s\<in>set (plan example_args). ''nasl,cert'' \<in> set (types s)) \<and>
   syncs (filter_syncs ''/run/gvmd.lock'' ''nasl,cert'' (plan example_args)) = [] \<and>
   lock_file (filter_syncs ''/run/gvmd.lock'' ''nasl,cert'' (plan example_args)) =
     ''/run/gvmd.lock''"
proof -
  have none: "\<forall>s\<in>set (plan example_args). ''nasl,cert'' \<notin> set (types s)"
    by (simp add: plan_args)
  from filter_syncs_selects [of "''/run/gvmd.lock''" "''nasl,cert''" "plan example_args"] none
  show ?thesis by blast
qed

text \<open>
  C4. Filtering is idempotent: filtering the syncs of a filtered group again, with the same
  lock file and feed type, gives the same group. The syncs of the result are syncs of the
  input, unchanged.
\<close>

theorem filter_syncs_idempotent:
  "filter_syncs lf t (syncs (filter_syncs lf t S)) = filter_syncs lf t S \<and>
   set (syncs (filter_syncs lf t S)) \<subseteq> set S"
  by (auto simp: filter_syncs_def)

theorem filter_syncs_idempotent_witness:
  "filter_syncs ''/run/gvmd.lock'' ''gvmd-data''
     (syncs (filter_syncs ''/run/gvmd.lock'' ''gvmd-data'' (plan example_args))) =
   filter_syncs ''/run/gvmd.lock'' ''gvmd-data'' (plan example_args)"
  using filter_syncs_idempotent [of "''/run/gvmd.lock''" "''gvmd-data''" "plan example_args"]
  by (rule conjunct1)

text \<open>
  C6. Under the effective user id 0 \<^verbatim>\<open>feed_sync\<close> raises
  \<^verbatim>\<open>GreenboneFeedSyncError\<close> and nothing else happens: no call of
  \<^verbatim>\<open>filter_syncs\<close>, no lock, no transfer, no output.
\<close>

theorem root_is_refused:
  "is_root env \<Longrightarrow> feed_sync env = (Inl (GreenboneFeedSyncError root_message), [])"
  by (simp add: feed_sync_def)

theorem root_is_refused_witness:
  "is_root env_root \<and> feed_sync env_root = (Inl (GreenboneFeedSyncError root_message), [])"
proof -
  have root: "is_root env_root"
    by (simp add: is_root_def env_root_def env_ok_def)
  from root_is_refused [OF root] root show ?thesis by simp
qed

text \<open>
  C1. With \<^verbatim>\<open>fail_fast\<close>, a transfer that raises \<^verbatim>\<open>RsyncError\<close> is the last
  transfer of the run: after it come only the diagnostic output and the release of the
  lock held during the transfer, and \<^verbatim>\<open>feed_sync\<close> returns 1. The transfers of the run are then the planned ones
  up to the failed one, so that no later sync of the same group and no sync of a later
  group is transferred.
\<close>

theorem fail_fast_stops_the_run:
  assumes "fail_fast (parse_arguments env)"
    and "feed_sync env = (res, tr)"
    and "tr = pre @ Transfer u d (Some e) # post"
    and "isinstance e ''RsyncError''"
  shows "res = Inr 1 \<and>
         (\<exists>lf. current_lock pre = Some lf \<and> post = [PrintStderr (stderr e), LockExit lf]) \<and>
         transfers tr = take (Suc (length (transfers pre)))
                          (map target (plan (parse_arguments env)))"
proof -
  from feed_sync_after_failure [OF assms(2,3)] assms(1,4)
  obtain lf where post: "post = [PrintStderr (stderr e), LockExit lf]"
    and res: "res = Inr 1" by auto
  from post assms(3) have len: "length (transfers tr) = Suc (length (transfers pre))"
    by (simp add: transfers_append)
  from post assms(3)
  have "tr = pre @ [Transfer u d (Some e), PrintStderr (stderr e)] @ [LockExit lf]" by simp
  from lock_before_exit [OF assms(2) this] have held: "current_lock pre = Some lf" by simp
  from feed_sync_transfers [OF assms(2)]
  have "transfers tr = take (length (transfers tr)) (map target (plan (parse_arguments env)))"
    by (auto simp: prefix_def)
  with len res post held show ?thesis by simp
qed

theorem fail_fast_stops_the_run_witness:
  "fail_fast (parse_arguments env_fail_fast) \<and> isinstance rsync_error ''RsyncError'' \<and>
   fst (feed_sync env_fail_fast) = Inr 1 \<and>
   current_lock pre_nasl = Some ''/run/openvas.lock'' \<and>
   transfers (snd (feed_sync env_fail_fast)) =
     take 2 (map target (plan (parse_arguments env_fail_fast)))"
proof -
  have ff: "fail_fast (parse_arguments env_fail_fast)"
    by (simp add: example_defs)
  have err: "isinstance rsync_error ''RsyncError''"
    by (simp add: isinstance_def rsync_error_def)
  have cut: "pre_nasl @ Transfer ''feed/nasl'' ''/nasl'' (Some rsync_error) #
               [PrintStderr (stderr rsync_error), LockExit ''/run/openvas.lock''] =
             pre_nasl @ Transfer ''feed/nasl'' ''/nasl'' (Some rsync_error) #
               [PrintStderr (stderr rsync_error), LockExit ''/run/openvas.lock'']" ..
  from fail_fast_stops_the_run [OF ff run_fail_fast cut err] ff err run_fail_fast
  show ?thesis
    by (simp add: pre_nasl_def calls_all_def enter_openvas_def numeral_2_eq_2)
qed

text \<open>
  C2. Without \<^verbatim>\<open>fail_fast\<close>, a transfer error stops nothing: whenever
  \<^verbatim>\<open>feed_sync\<close> returns, it returns 1 if a transfer of the run raised
  \<^verbatim>\<open>RsyncError\<close> and 0 otherwise; and in a run in which nothing else is raised (no
  other exception by a transfer, every lock acquired), whatever transfers fail, every
  planned sync of every group is transferred, in order, and \<^verbatim>\<open>feed_sync\<close> returns.
  The only way for a run to end early is an exception that \<^verbatim>\<open>feed_sync\<close> does not
  handle, which is the matter of C10.
\<close>

theorem errors_do_not_stop_the_run:
  assumes "\<not> fail_fast (parse_arguments env)"
    and "\<not> is_root env"
    and "feed_sync env = (res, tr)"
  shows "(\<forall>v. res = Inr v \<longrightarrow> v = (if (\<exists>ev\<in>set tr. rsync_failure ev) then 1 else 0)) \<and>
         ((\<forall>ev\<in>set tr. \<not> interrupting ev) \<longrightarrow>
            transfers tr = map target (plan (parse_arguments env)) \<and>
            res = Inr (if (\<exists>ev\<in>set tr. rsync_failure ev) then 1 else 0))"
proof -
  let ?a = "parse_arguments env"
  from feed_sync_run [OF assms(2,3)] obtain rs w calls fl evs where
    run: "sync_lists_loop env ?a rs w [openvas_syncs ?a, gvmd_syncs ?a] False calls = (fl, evs)"
    and calls: "calls = [CallFilterSyncs (openvas_lock_file ?a) (type ?a),
                         CallFilterSyncs (gvmd_lock_file ?a) (type ?a)]"
    and tr: "tr = calls @ evs" and res: "res = outcome fl" by blast
  have failed: "(\<exists>ev\<in>set tr. rsync_failure ev) = (\<exists>ev\<in>set evs. rsync_failure ev)"
    using tr calls by simp
  have returned: "\<forall>v. res = Inr v \<longrightarrow> v = (if (\<exists>ev\<in>set tr. rsync_failure ev) then 1 else 0)"
    using loop_result [OF run] res unfolding failed by (cases fl) auto
  have "transfers tr = map target (plan ?a) \<and>
        res = Inr (if (\<exists>ev\<in>set tr. rsync_failure ev) then 1 else 0)"
    if quiet: "\<forall>ev\<in>set tr. \<not> interrupting ev"
  proof -
    from quiet tr have "\<forall>ev\<in>set evs. \<not> interrupting ev" by simp
    from loop_completes [OF run assms(1) this] obtain b where fl: "fl = Next b" ..
    from loop_transfers [OF run] fl
    have "transfers evs = map target (plan ?a)" by (simp add: plan_def)
    with tr calls have "transfers tr = map target (plan ?a)" by simp
    moreover from fl res returned
    have "res = Inr (if (\<exists>ev\<in>set tr. rsync_failure ev) then 1 else 0)" by simp
    ultimately show ?thesis ..
  qed
  with returned show ?thesis by blast
qed

theorem errors_do_not_stop_the_run_witness:
  "\<not> fail_fast (parse_arguments env_recorded) \<and> \<not> is_root env_recorded \<and>
   \<not> (\<exists>ev\<in>set (snd (feed_sync env_recorded)). interrupting ev) \<and>
   (\<exists>ev\<in>set (snd (feed_sync env_recorded)). rsync_failure ev) \<and>
   transfers (snd (feed_sync env_recorded)) = map target (plan (parse_arguments env_recorded)) \<and>
   fst (feed_sync env_recorded) = Inr 1"
proof -
  have nff: "\<not> fail_fast (parse_arguments env_recorded)"
    by (simp add: example_defs)
  have nr: "\<not> is_root env_recorded"
    by (simp add: is_root_def example_defs)
  have quiet: "\<forall>ev\<in>set (pre_nasl @ Transfer ''feed/nasl'' ''/nasl'' (Some rsync_error) #
                          PrintStderr (stderr rsync_error) # post_gvmd). \<not> interrupting ev"
    by (simp add: pre_nasl_def post_gvmd_def calls_all_def enter_openvas_def
                  isinstance_def rsync_error_def)
  have failed: "\<exists>ev\<in>set (pre_nasl @ Transfer ''feed/nasl'' ''/nasl'' (Some rsync_error) #
                           PrintStderr (stderr rsync_error) # post_gvmd). rsync_failure ev"
    by (simp add: pre_nasl_def post_gvmd_def calls_all_def enter_openvas_def
                  isinstance_def rsync_error_def)
  from errors_do_not_stop_the_run [OF nff nr run_recorded] quiet failed nff nr run_recorded
  show ?thesis by simp
qed

text \<open>
  C5. A group without syncs is skipped entirely: the loop over the groups behaves, in its
  result and in every event, as on the list of groups without the empty ones; and the
  locks that a run of \<^verbatim>\<open>feed_sync\<close> asks for are, in order, those of its non-empty
  groups (of the first of them, when the run ends early).
\<close>

theorem empty_group_is_skipped:
  "sync_lists_loop env a rs w gs he hist =
     sync_lists_loop env a rs w (filter (\<lambda>g. syncs g \<noteq> []) gs) he hist \<and>
   prefix (lock_requests (snd (feed_sync env)))
     (map lock_file (filter (\<lambda>g. syncs g \<noteq> [])
        [openvas_syncs (parse_arguments env), gvmd_syncs (parse_arguments env)]))"
proof
  show "sync_lists_loop env a rs w gs he hist =
          sync_lists_loop env a rs w (filter (\<lambda>g. syncs g \<noteq> []) gs) he hist"
    by (simp only: loop_skips_empty)
next
  let ?a = "parse_arguments env"
  show "prefix (lock_requests (snd (feed_sync env)))
          (map lock_file (filter (\<lambda>g. syncs g \<noteq> []) [openvas_syncs ?a, gvmd_syncs ?a]))"
  proof (cases "is_root env")
    case True
    then show ?thesis by (simp add: feed_sync_def)
  next
    case False
    obtain res tr where ft: "feed_sync env = (res, tr)" by (cases "feed_sync env")
    from feed_sync_run [OF False ft] obtain rs w calls fl evs where
      run: "sync_lists_loop env ?a rs w [openvas_syncs ?a, gvmd_syncs ?a] False calls = (fl, evs)"
      and calls: "calls = [CallFilterSyncs (openvas_lock_file ?a) (type ?a),
                           CallFilterSyncs (gvmd_lock_file ?a) (type ?a)]"
      and tr: "tr = calls @ evs" by blast
    from loop_locks [OF run]
    have "prefix (lock_requests evs)
            (map lock_file (filter (\<lambda>g. syncs g \<noteq> []) [openvas_syncs ?a, gvmd_syncs ?a]))"
      by (rule conjunct2)
    with ft tr calls show ?thesis by simp
  qed
qed

theorem empty_group_is_skipped_witness:
  "syncs (openvas_syncs (parse_arguments env_scap)) = [] \<and>
   prefix (lock_requests (snd (feed_sync env_scap))) [''/run/gvmd.lock''] \<and>
   lock_requests (snd (feed_sync env_scap)) = [''/run/gvmd.lock'']"
proof -
  have empty: "syncs (openvas_syncs (parse_arguments env_scap)) = []"
    by (simp add: example_defs openvas_syncs_def filter_syncs_def)
  have full: "syncs (gvmd_syncs (parse_arguments env_scap)) \<noteq> []"
    by (simp add: example_defs gvmd_syncs_def filter_syncs_def)
  have lf: "lock_file (gvmd_syncs (parse_arguments env_scap)) = ''/run/gvmd.lock''"
    by (simp add: example_defs gvmd_syncs_def filter_syncs_def)
  from empty_group_is_skipped [of env_scap] empty full lf
  have "prefix (lock_requests (snd (feed_sync env_scap))) [''/run/gvmd.lock'']" by simp
  with empty run_scap show ?thesis by simp
qed

text \<open>
  C7. \<^verbatim>\<open>main\<close> exits with the value that \<^verbatim>\<open>feed_sync\<close> returns, which is 1 when a
  transfer error occurred in the run and 0 otherwise. When \<^verbatim>\<open>feed_sync\<close> raises a
  \<^verbatim>\<open>GreenboneFeedSyncError\<close>, as it does for root, \<^verbatim>\<open>main\<close> prints the message of
  the error to the error stream and exits with 1; when a \<^verbatim>\<open>KeyboardInterrupt\<close> leaves
  \<^verbatim>\<open>feed_sync\<close>, \<^verbatim>\<open>main\<close> exits with 1.
\<close>

theorem main_exit_status:
  "(\<forall>v tr. feed_sync env = (Inr v, tr) \<longrightarrow>
      main env = (Exit v, tr) \<and> v = (if (\<exists>ev\<in>set tr. rsync_failure ev) then 1 else 0)) \<and>
   (\<forall>e tr. feed_sync env = (Inl e, tr) \<and> isinstance e ''GreenboneFeedSyncError'' \<longrightarrow>
      main env = (Exit 1, tr @ [PrintStderr (message e)])) \<and>
   (is_root env \<longrightarrow> main env = (Exit 1, [PrintStderr root_message])) \<and>
   (\<forall>e tr. feed_sync env = (Inl e, tr) \<and> isinstance e ''KeyboardInterrupt'' \<longrightarrow>
      fst (main env) = Exit 1)"
proof (intro conjI allI impI)
  fix v tr
  assume ft: "feed_sync env = (Inr v, tr)"
  then show "main env = (Exit v, tr)" by (simp add: main_def)
  let ?a = "parse_arguments env"
  from ft have nr: "\<not> is_root env" by (auto simp: feed_sync_def)
  from feed_sync_run [OF nr ft] obtain rs w calls fl evs where
    run: "sync_lists_loop env ?a rs w [openvas_syncs ?a, gvmd_syncs ?a] False calls = (fl, evs)"
    and calls: "calls = [CallFilterSyncs (openvas_lock_file ?a) (type ?a),
                         CallFilterSyncs (gvmd_lock_file ?a) (type ?a)]"
    and tr: "tr = calls @ evs" and res: "Inr v = outcome fl" by blast
  from loop_result [OF run] res tr calls
  show "v = (if (\<exists>ev\<in>set tr. rsync_failure ev) then 1 else 0)"
    by (cases fl) auto
next
  fix e tr
  assume "feed_sync env = (Inl e, tr) \<and> isinstance e ''GreenboneFeedSyncError''"
  then show "main env = (Exit 1, tr @ [PrintStderr (message e)])" by (simp add: main_def)
next
  assume "is_root env"
  then show "main env = (Exit 1, [PrintStderr root_message])"
    by (simp add: main_def feed_sync_def GreenboneFeedSyncError_def isinstance_def)
next
  fix e tr
  assume "feed_sync env = (Inl e, tr) \<and> isinstance e ''KeyboardInterrupt''"
  then show "fst (main env) = Exit 1" by (simp add: main_def)
qed

theorem main_exit_status_witness:
  "fst (main env_ok) = Exit 0 \<and> fst (main env_recorded) = Exit 1 \<and>
   fst (main env_fail_fast) = Exit 1 \<and>
   main env_root = (Exit 1, [PrintStderr root_message]) \<and>
   fst (main env_interrupted) = Exit 1"
proof -
  have ki: "isinstance keyboard_interrupt ''KeyboardInterrupt''"
    by (simp add: isinstance_def keyboard_interrupt_def)
  have root: "is_root env_root"
    by (simp add: is_root_def env_root_def env_ok_def)
  from main_exit_status [of env_ok] run_ok have "main env_ok = (Exit 0, trace_ok)" by blast
  moreover from main_exit_status [of env_recorded] run_recorded
  have "fst (main env_recorded) = Exit 1" by fastforce
  moreover from main_exit_status [of env_fail_fast] run_fail_fast
  have "fst (main env_fail_fast) = Exit 1" by fastforce
  moreover from main_exit_status [of env_root] root
  have "main env_root = (Exit 1, [PrintStderr root_message])" by blast
  moreover from main_exit_status [of env_interrupted] run_interrupted ki
  have "fst (main env_interrupted) = Exit 1" by blast
  ultimately show ?thesis by simp
qed

text \<open>
  C8. In every run, however it ends, a lock that was acquired is released: after the entry
  into the block under the lock come events of that block only, none of them a lock event,
  and then the exit from the block, which releases this lock; and no lock is held when the
  run is over, whether \<^verbatim>\<open>feed_sync\<close> returns or an exception leaves it.
\<close>

theorem lock_is_released:
  assumes "feed_sync env = (res, tr)"
  shows "current_lock tr = None \<and>
         (\<forall>pre lf vb w post. tr = pre @ LockEnter lf vb w None # post \<longrightarrow>
            (\<exists>body rest. post = body @ LockExit lf # rest \<and>
                          (\<forall>x\<in>set body. \<not> is_lock_event x)))"
proof (intro conjI allI impI)
  from feed_sync_exits [OF assms] show "current_lock tr = None" ..
next
  fix pre lf vb w post
  assume cut: "tr = pre @ LockEnter lf vb w None # post"
  let ?a = "parse_arguments env"
  have nr: "\<not> is_root env"
    using assms cut by (auto simp: feed_sync_def)
  from feed_sync_run [OF nr assms] obtain rs w' calls fl evs where
    run: "sync_lists_loop env ?a rs w' [openvas_syncs ?a, gvmd_syncs ?a] False calls = (fl, evs)"
    and calls: "calls = [CallFilterSyncs (openvas_lock_file ?a) (type ?a),
                         CallFilterSyncs (gvmd_lock_file ?a) (type ?a)]"
    and tr: "tr = calls @ evs" by blast
  from loop_locks [OF run] have "suffixes_all released_after evs" by simp
  with tr calls have "suffixes_all released_after tr" by simp
  from suffixes_allD [OF this cut]
  show "\<exists>body rest. post = body @ LockExit lf # rest \<and> (\<forall>x\<in>set body. \<not> is_lock_event x)"
    by simp
qed

theorem lock_is_released_witness:
  "(\<exists>res tr post. feed_sync env_ok = (res, tr) \<and> current_lock tr = None \<and>
      tr = calls_all @ enter_openvas # post \<and>
      (\<exists>body rest. post = body @ LockExit ''/run/openvas.lock'' # rest \<and>
         (\<forall>x\<in>set body. \<not> is_lock_event x))) \<and>
   (\<exists>res tr post. feed_sync env_recorded = (res, tr) \<and> current_lock tr = None \<and>
      tr = calls_all @ enter_openvas # post \<and>
      (\<exists>body rest. post = body @ LockExit ''/run/openvas.lock'' # rest \<and>
         (\<forall>x\<in>set body. \<not> is_lock_event x))) \<and>
   (\<exists>res tr post. feed_sync env_fail_fast = (res, tr) \<and> current_lock tr = None \<and>
      tr = calls_all @ enter_openvas # post \<and>
      (\<exists>body rest. post = body @ LockExit ''/run/openvas.lock'' # rest \<and>
         (\<forall>x\<in>set body. \<not> is_lock_event x))) \<and>
   (\<exists>res tr post. feed_sync env_interrupted = (res, tr) \<and> current_lock tr = None \<and>
      tr = calls_all @ enter_openvas # post \<and>
      (\<exists>body rest. post = body @ LockExit ''/run/openvas.lock'' # rest \<and>
         (\<forall>x\<in>set body. \<not> is_lock_event x)))"
proof -
  have shape: "\<exists>post. tr = calls_all @ enter_openvas # post"
    if "tr \<in> {trace_ok,
               pre_nasl @ Transfer ''feed/nasl'' ''/nasl'' (Some rsync_error) #
                 PrintStderr (stderr rsync_error) # post_gvmd,
               pre_nasl @ Transfer ''feed/nasl'' ''/nasl'' (Some rsync_error) #
                 [PrintStderr (stderr rsync_error), LockExit ''/run/openvas.lock''],
               pre_nasl @ Transfer ''feed/nasl'' ''/nasl'' (Some keyboard_interrupt) #
                 [LockExit ''/run/openvas.lock'']}" for tr
    using that by (auto simp: trace_ok_def pre_nasl_def calls_all_def)
  have released: "\<exists>res tr post. feed_sync env = (res, tr) \<and> current_lock tr = None \<and>
      tr = calls_all @ enter_openvas # post \<and>
      (\<exists>body rest. post = body @ LockExit ''/run/openvas.lock'' # rest \<and>
         (\<forall>x\<in>set body. \<not> is_lock_event x))"
    if run: "feed_sync env = (res, tr)" and tr: "\<exists>post. tr = calls_all @ enter_openvas # post"
    for env res tr
  proof -
    from tr obtain post where post: "tr = calls_all @ enter_openvas # post" ..
    from lock_is_released [OF run] post [unfolded enter_openvas_def]
    have "current_lock tr = None"
      and "\<exists>body rest. post = body @ LockExit ''/run/openvas.lock'' # rest \<and>
             (\<forall>x\<in>set body. \<not> is_lock_event x)" by blast+
    with run post show ?thesis by blast
  qed
  from released [OF run_ok shape] released [OF run_recorded shape]
    released [OF run_fail_fast shape] released [OF run_interrupted shape]
  show ?thesis by simp
qed

text \<open>
  C9. Whatever the policy, a transfer that raises \<^verbatim>\<open>RsyncError\<close> is followed at once
  by the output of the error's \<^verbatim>\<open>stderr\<close> to the error stream.
\<close>

theorem transfer_error_is_reported:
  assumes "feed_sync env = (res, tr)"
    and "tr = pre @ Transfer u d (Some e) # post"
    and "isinstance e ''RsyncError''"
  shows "\<exists>post'. post = PrintStderr (stderr e) # post'"
  using feed_sync_after_failure [OF assms(1,2)] assms(3) by auto

theorem transfer_error_is_reported_witness:
  "isinstance rsync_error ''RsyncError'' \<and>
   \<not> fail_fast (parse_arguments env_recorded) \<and>
   feed_sync env_recorded =
     (Inr 1,
      [CallFilterSyncs ''/run/openvas.lock'' ''all'',
       CallFilterSyncs ''/run/gvmd.lock'' ''all'',
       LockEnter ''/run/openvas.lock'' False (Some 5) None,
       Transfer ''feed/notus'' ''/notus'' None,
       Transfer ''feed/nasl'' ''/nasl'' (Some rsync_error),
       PrintStderr ''connection refused'',
       LockExit ''/run/openvas.lock'',
       LockEnter ''/run/gvmd.lock'' False (Some 5) None,
       Transfer ''feed/scap'' ''/scap'' None,
       Transfer ''feed/cert'' ''/cert'' None,
       Transfer ''feed/rf'' ''/rf'' None,
       Transfer ''feed/sc'' ''/sc'' None,
       Transfer ''feed/pl'' ''/pl'' None,
       LockExit ''/run/gvmd.lock'']) \<and>
   fail_fast (parse_arguments env_fail_fast) \<and>
   feed_sync env_fail_fast =
     (Inr 1,
      [CallFilterSyncs ''/run/openvas.lock'' ''all'',
       CallFilterSyncs ''/run/gvmd.lock'' ''all'',
       LockEnter ''/run/openvas.lock'' False (Some 5) None,
       Transfer ''feed/notus'' ''/notus'' None,
       Transfer ''feed/nasl'' ''/nasl'' (Some rsync_error),
       PrintStderr ''connection refused'',
       LockExit ''/run/openvas.lock''])"
proof -
  have err: "isinstance rsync_error ''RsyncError''"
    by (simp add: isinstance_def rsync_error_def)
  have shown: "stderr rsync_error = ''connection refused''"
    by (simp add: rsync_error_def)
  have policies: "\<not> fail_fast (parse_arguments env_recorded)"
    "fail_fast (parse_arguments env_fail_fast)"
    by (simp_all add: example_defs)
  from transfer_error_is_reported [OF run_recorded refl err]
  obtain rest where recorded: "PrintStderr (stderr rsync_error) # post_gvmd =
                               PrintStderr (stderr rsync_error) # rest" ..
  from transfer_error_is_reported [OF run_fail_fast refl err]
  obtain rest' where aborted:
    "[PrintStderr (stderr rsync_error), LockExit ''/run/openvas.lock''] =
     PrintStderr (stderr rsync_error) # rest'" ..
  from recorded aborted run_recorded run_fail_fast err policies
  show ?thesis
    by (simp add: shown pre_nasl_def calls_all_def enter_openvas_def post_gvmd_def)
qed

text \<open>
  C10. An exception of a transfer that is not an \<^verbatim>\<open>RsyncError\<close> leaves
  \<^verbatim>\<open>feed_sync\<close>, whatever the policy: the run ends with this exception, not with a
  return value, and after the transfer comes nothing but the release of the lock that
  was held during the transfer.
\<close>

theorem other_exception_propagates:
  assumes "feed_sync env = (res, tr)"
    and "tr = pre @ Transfer u d (Some e) # post"
    and "\<not> isinstance e ''RsyncError''"
  shows "res = Inl e \<and> (\<exists>lf. current_lock pre = Some lf \<and> post = [LockExit lf])"
proof -
  from feed_sync_after_failure [OF assms(1,2)] assms(3)
  obtain lf where post: "post = [LockExit lf]" and res: "res = Inl e" by auto
  from post assms(2) have "tr = pre @ [Transfer u d (Some e)] @ [LockExit lf]" by simp
  from lock_before_exit [OF assms(1) this] have "current_lock pre = Some lf" by simp
  with post res show ?thesis by simp
qed

theorem other_exception_propagates_witness:
  "\<not> isinstance keyboard_interrupt ''RsyncError'' \<and>
   fst (feed_sync env_interrupted) = Inl keyboard_interrupt \<and>
   current_lock pre_nasl = Some ''/run/openvas.lock''"
proof -
  have other: "\<not> isinstance keyboard_interrupt ''RsyncError''"
    by (simp add: isinstance_def keyboard_interrupt_def)
  from other_exception_propagates [OF run_interrupted refl other] other run_interrupted
  show ?thesis by simp
qed

end
